theory Spec2Isabelle
  imports Main "HOL-Library.Word"
begin

unbundle bit_operations_syntax

section \<open>Data model\<close>

text \<open>
  A Node \<open>Buffer\<close> is a sequence of bytes. JavaScript numbers that hold integers are
  modelled as \<open>int\<close>; the 32-bit coercions of the bitwise operators are written out
  where the source applies them (\<open>|=\<close> and \<open><<\<close> work on signed 32-bit values,
  \<open>>>>\<close> on unsigned 32-bit values).
\<close>

type_synonym byte = "8 word"
type_synonym Buffer = "byte list"

datatype AudioCodec = CELT_Alpha | Ping | Speex | CELT_Beta | Opus

text \<open>The numeric value of each member of the enum.\<close>

fun AudioCodec_value :: "AudioCodec \<Rightarrow> int" where
  "AudioCodec_value CELT_Alpha = 0"
| "AudioCodec_value Ping = 1"
| "AudioCodec_value Speex = 2"
| "AudioCodec_value CELT_Beta = 3"
| "AudioCodec_value Opus = 4"

record FullAudioPacket =
  source :: int
  codec :: int
  target :: int
  sequence :: int
  audioData :: Buffer
  isTerminator :: bool

section \<open>Varint codec\<close>

text \<open>
  \<open>readVarint\<close>: the loop state is \<open>(value, bytesRead, shift)\<close>. The accumulator is a
  32-bit word because \<open>value |= (byte & 0x7f) << shift\<close> coerces both operands to
  32 bits; \<open><<\<close> uses the shift count modulo 32. The number returned is the signed
  reading of the accumulator.
\<close>

function readVarint_loop :: "Buffer \<Rightarrow> nat \<Rightarrow> 32 word \<Rightarrow> nat \<Rightarrow> nat \<Rightarrow> 32 word \<times> nat" where
  "readVarint_loop buffer offset val bytesRead shift =
     (if offset + bytesRead < length buffer then
        let byte = buffer ! (offset + bytesRead);
            val' = val OR push_bit (shift mod 32) (ucast (byte AND 0x7f));
            bytesRead' = bytesRead + 1
        in if byte AND 0x80 = 0 then (val', bytesRead')
           else readVarint_loop buffer offset val' bytesRead' (shift + 7)
      else (val, bytesRead))"
  by pat_completeness auto
termination
  by (relation "measure (\<lambda>(buffer, offset, val, bytesRead, shift). length buffer - (offset + bytesRead))")
    auto

definition readVarint :: "Buffer \<Rightarrow> nat \<Rightarrow> int \<times> nat" where
  "readVarint buffer offset =
     (let (val, bytesRead) = readVarint_loop buffer offset 0 0 0 in (sint val, bytesRead))"

text \<open>
  \<open>writeVarint\<close>: \<open>value > 0x7f\<close> compares numbers; \<open>value & 0x7f\<close> keeps the low seven
  bits of the two's-complement value; \<open>value >>>= 7\<close> first reduces the value to an
  unsigned 32-bit integer. \<open>Buffer.from\<close> stores each number modulo 256.
\<close>

function writeVarint_loop :: "int \<Rightarrow> int list \<Rightarrow> int list" where
  "writeVarint_loop v bytes =
     (if v > 0x7f
      then writeVarint_loop (drop_bit 7 (take_bit 32 v)) (bytes @ [(v AND 0x7f) OR 0x80])
      else bytes @ [v AND 0x7f])"
  by pat_completeness auto
termination
proof (relation "measure (\<lambda>(v, bytes). nat v)")
  show "wf (measure (\<lambda>(v, bytes). nat v))" by simp
next
  fix v :: int and bytes :: "int list"
  assume v: "0x7f < v"
  have "take_bit 32 v \<le> v" using v by (simp add: take_bit_int_less_eq_self_iff)
  moreover have "0 \<le> take_bit 32 v" by simp
  ultimately have "drop_bit 7 (take_bit 32 v) < v"
    using v by (simp add: drop_bit_eq_div) 
  moreover have "0 \<le> drop_bit 7 (take_bit 32 v)" by simp
  ultimately show "((drop_bit 7 (take_bit 32 v), bytes @ [(v AND 0x7f) OR 0x80]), (v, bytes))
      \<in> measure (\<lambda>(v, bytes). nat v)"
    using v by simp
qed

definition writeVarint :: "int \<Rightarrow> Buffer" where
  "writeVarint v = map word_of_int (writeVarint_loop v [])"

section \<open>Audio packet codec\<close>

definition parseAudioPacket :: "Buffer \<Rightarrow> FullAudioPacket option" where
  "parseAudioPacket data =
     (if length data < 1 then None
      else
        let header = uint (data ! 0);
            codec = drop_bit 5 header AND 0x07;
            target = header AND 0x1f;
            session = readVarint data 1;
            offset = 1 + snd session;
            sequence = readVarint data offset;
            offset = offset + snd sequence
        in if codec = AudioCodec_value Opus then
             let opusHeader = readVarint data offset;
                 offset = offset + snd opusHeader;
                 isTerminator = (fst opusHeader AND 0x2000 \<noteq> 0);
                 audioLength = fst opusHeader AND 0x1fff
             in if int offset + audioLength > int (length data) then None
                else Some \<lparr>source = fst session, codec = codec, target = target,
                          sequence = fst sequence,
                          audioData = take (nat audioLength) (drop offset data),
                          isTerminator = isTerminator\<rparr>
           else Some \<lparr>source = fst session, codec = codec, target = target,
                     sequence = fst sequence,
                     audioData = drop offset data,
                     isTerminator = False\<rparr>)"

definition createAudioPacket :: "AudioCodec \<Rightarrow> int \<Rightarrow> int \<Rightarrow> Buffer \<Rightarrow> bool \<Rightarrow> Buffer" where
  "createAudioPacket params_codec params_target params_sequence params_audioData
       params_isTerminator =
     (let header = push_bit 5 (AudioCodec_value params_codec AND 0x07) OR (params_target AND 0x1f);
          sequenceVarint = writeVarint params_sequence
      in if params_codec = Opus then
           let lengthValue = int (length params_audioData) AND 0x1fff;
               lengthValue = (if params_isTerminator then lengthValue OR 0x2000 else lengthValue);
               lengthVarint = writeVarint lengthValue
           in [word_of_int header] @ sequenceVarint @ lengthVarint @ params_audioData
         else [word_of_int header] @ sequenceVarint @ params_audioData)"


text \<open>
  The Opus length field as \<open>parseAudioPacket\<close> reads it: the third varint after the
  header byte, with the offset of the first byte after it.
\<close>

definition opus_length_field :: "Buffer \<Rightarrow> int \<times> nat" where
  "opus_length_field data =
     (let offset = 1 + snd (readVarint data 1);
          offset = offset + snd (readVarint data offset);
          opusHeader = readVarint data offset
      in (fst opusHeader, offset + snd opusHeader))"

text \<open>
  The inbound form of an outbound packet. \<open>createAudioPacket\<close> writes no session id;
  a packet that arrives carries the sender's session as a varint between the header
  byte and the sequence number (the layout \<open>parseAudioPacket\<close> reads).
\<close>

definition with_session :: "int \<Rightarrow> Buffer \<Rightarrow> Buffer" where
  "with_session session packet =
     (case packet of [] \<Rightarrow> [] | header # rest \<Rightarrow> header # writeVarint session @ rest)"

section \<open>Reference functions for the varint reader\<close>

text \<open>
  \<open>varint_scan\<close> is the reader's loop run over the bytes that remain at the offset:
  the same three steps per byte, by recursion on the list.
\<close>

fun varint_scan :: "Buffer \<Rightarrow> 32 word \<Rightarrow> nat \<Rightarrow> 32 word \<times> nat" where
  "varint_scan [] val shift = (val, 0)"
| "varint_scan (b # bs) val shift =
     (let val' = val OR push_bit (shift mod 32) (ucast (b AND 0x7f))
      in if b AND 0x80 = 0 then (val', 1)
         else (case varint_scan bs val' (shift + 7) of (v, n) \<Rightarrow> (v, n + 1)))"

text \<open>
  The number of bytes a read consumes, in the words of the specification: every leading
  byte with the continuation bit, and the first byte without it when there is one.
\<close>

definition varint_consumed :: "Buffer \<Rightarrow> nat" where
  "varint_consumed rest =
     (let cont = takeWhile (\<lambda>b. b AND 0x80 \<noteq> 0) rest
      in if length cont < length rest then length cont + 1 else length rest)"

text \<open>
  The value accumulated from a sequence of bytes: byte \<open>i\<close> contributes its low seven
  bits shifted left by \<open>7 * i\<close> (the shift count taken modulo 32, as \<open><<\<close> does),
  combined by bitwise or into a signed 32-bit value.
\<close>

definition varint_accumulate :: "Buffer \<Rightarrow> int" where
  "varint_accumulate bs =
     sint (fold (\<lambda>(i, b) acc. acc OR push_bit (7 * i mod 32) (ucast (b AND 0x7f)))
             (enumerate 0 bs) (0 :: 32 word))"

section \<open>Audio stream adapter\<close>

text \<open>
  Function objects are values with an identity (the number given at allocation).
  \<open>Host i\<close> is a function of the host library, whose body is outside this module: a call
  of it is recorded. \<open>Bound i f\<close> is the object made by \<open>f.bind(socket)\<close>; its target
  never changes. \<open>Hook i\<close> is an arrow function created by \<open>hookAudioDecoding\<close>.
\<close>

datatype fn = Host nat | Bound nat fn | Hook nat

datatype jsval = NotAFunction | Fn fn

text \<open>
  The RxJS subject, as far as the adapter uses it: \<open>next\<close> notifies the subscribers
  unless the subject is stopped, \<open>complete\<close> stops it. \<open>emitted\<close> is the sequence of
  packets the subscribers have been notified of.
\<close>

record Subject =
  isStopped :: bool
  emitted :: "FullAudioPacket list"

definition Subject_next :: "FullAudioPacket \<Rightarrow> Subject \<Rightarrow> Subject" where
  "Subject_next packet s = (if isStopped s then s else s\<lparr>emitted := emitted s @ [packet]\<rparr>)"

definition Subject_complete :: "Subject \<Rightarrow> Subject" where
  "Subject_complete s = s\<lparr>isStopped := True\<rparr>"

text \<open>
  The socket of the host client, as far as the adapter touches it: the \<open>decodeAudio\<close>
  property, the buffers accepted by \<open>write\<close> (in order), whether \<open>write\<close> currently
  resolves, the calls that reached host functions (identity of the function and the
  argument), and the next unused object identity.
\<close>

record MumbleSocket =
  decodeAudio :: jsval
  accepting :: bool
  written :: "Buffer list"
  delivered :: "(nat \<times> Buffer) list"
  allocated :: nat

datatype error = TransportWriteFailure | ERR_OUT_OF_RANGE

definition socket_write :: "Buffer \<Rightarrow> MumbleSocket \<Rightarrow> (error + unit) \<times> MumbleSocket" where
  "socket_write buf s =
     (if accepting s then (Inr (), s\<lparr>written := written s @ [buf]\<rparr>)
      else (Inl TransportWriteFailure, s))"

text \<open>
  Calling a function object with one buffer. A bound function calls its target. An arrow
  function found behind a bound function belongs to another stream (a stream binds the
  handler it finds before it creates its own arrow function), so for this stream it is
  foreign code like a host function.
\<close>

fun call_fn :: "fn \<Rightarrow> Buffer \<Rightarrow> MumbleSocket \<Rightarrow> MumbleSocket" where
  "call_fn (Host i) data s = s\<lparr>delivered := delivered s @ [(i, data)]\<rparr>"
| "call_fn (Bound i f) data s = call_fn f data s"
| "call_fn (Hook i) data s = s\<lparr>delivered := delivered s @ [(i, data)]\<rparr>"

text \<open>The identity of the function whose body finally runs.\<close>

fun fn_target :: "fn \<Rightarrow> nat" where
  "fn_target (Host i) = i"
| "fn_target (Bound i f) = fn_target f"
| "fn_target (Hook i) = i"

text \<open>
  The stream object. The field \<open>sequence\<close> of the class is \<open>stream_sequence\<close> here,
  the packet record has a field of that name already.
\<close>

record MumbleAudioStream =
  socket :: MumbleSocket
  audioSubject :: Subject
  stream_sequence :: int
  originalDecodeAudio :: "fn option"

definition hookAudioDecoding :: "MumbleAudioStream \<Rightarrow> MumbleAudioStream" where
  "hookAudioDecoding this =
     (case decodeAudio (socket this) of
        Fn f \<Rightarrow>
          let k = allocated (socket this)
          in this\<lparr>originalDecodeAudio := Some (Bound k f),
                  socket := (socket this)\<lparr>decodeAudio := Fn (Hook (k + 1)),
                                           allocated := k + 2\<rparr>\<rparr>
      | NotAFunction \<Rightarrow> this)"

definition new_MumbleAudioStream :: "MumbleSocket \<Rightarrow> MumbleAudioStream" where
  "new_MumbleAudioStream s =
     hookAudioDecoding
       \<lparr>socket = s, audioSubject = \<lparr>isStopped = False, emitted = []\<rparr>,
        stream_sequence = 0, originalDecodeAudio = None\<rparr>"

text \<open>The body of the arrow function installed as \<open>decodeAudio\<close>.\<close>

definition hooked_decodeAudio :: "Buffer \<Rightarrow> MumbleAudioStream \<Rightarrow> MumbleAudioStream" where
  "hooked_decodeAudio data this =
     (let this1 = (case parseAudioPacket data of
                     Some packet \<Rightarrow>
                       this\<lparr>audioSubject := Subject_next packet (audioSubject this)\<rparr>
                   | None \<Rightarrow> this)
      in case originalDecodeAudio this1 of
           Some f \<Rightarrow> this1\<lparr>socket := call_fn f data (socket this1)\<rparr>
         | None \<Rightarrow> this1)"

text \<open>
  The host handing one raw frame to \<open>socket.decodeAudio\<close>. \<open>None\<close>: the property is
  not a function, the call fails in the host.
\<close>

definition socket_decodeAudio :: "Buffer \<Rightarrow> MumbleAudioStream \<Rightarrow> MumbleAudioStream option" where
  "socket_decodeAudio data this =
     (case decodeAudio (socket this) of
        NotAFunction \<Rightarrow> None
      | Fn (Hook i) \<Rightarrow> Some (hooked_decodeAudio data this)
      | Fn f \<Rightarrow> Some (this\<lparr>socket := call_fn f data (socket this)\<rparr>))"

text \<open>
  Node's \<open>Buffer.alloc\<close>, \<open>writeUInt16BE\<close> and \<open>writeUInt32BE\<close>; the writers raise
  \<open>ERR_OUT_OF_RANGE\<close> for a value or an offset that does not fit.
\<close>

definition Buffer_alloc :: "nat \<Rightarrow> Buffer" where
  "Buffer_alloc n = replicate n 0"

definition writeUInt16BE :: "int \<Rightarrow> nat \<Rightarrow> Buffer \<Rightarrow> error + Buffer" where
  "writeUInt16BE v offset buf =
     (if v < 0 \<or> v \<ge> 2 ^ 16 \<or> offset + 2 > length buf then Inl ERR_OUT_OF_RANGE
      else Inr (buf[offset := word_of_int (v div 2 ^ 8), offset + 1 := word_of_int v]))"

definition writeUInt32BE :: "int \<Rightarrow> nat \<Rightarrow> Buffer \<Rightarrow> error + Buffer" where
  "writeUInt32BE v offset buf =
     (if v < 0 \<or> v \<ge> 2 ^ 32 \<or> offset + 4 > length buf then Inl ERR_OUT_OF_RANGE
      else Inr (buf[offset := word_of_int (v div 2 ^ 24),
                    offset + 1 := word_of_int (v div 2 ^ 16),
                    offset + 2 := word_of_int (v div 2 ^ 8),
                    offset + 3 := word_of_int v]))"

text \<open>
  \<open>sendAudio\<close>: the result is the outcome of the promise. The counter is incremented
  when the packet is built, before anything can fail.
\<close>

definition sendAudio ::
  "Buffer \<Rightarrow> AudioCodec \<Rightarrow> int \<Rightarrow> bool \<Rightarrow> MumbleAudioStream \<Rightarrow> (error + unit) \<times> MumbleAudioStream" where
  "sendAudio data c t term this =
     (let packet = createAudioPacket c t (stream_sequence this) data term;
          this1 = this\<lparr>stream_sequence := stream_sequence this + 1\<rparr>
      in case writeUInt16BE 1 0 (Buffer_alloc 6) of
           Inl e \<Rightarrow> (Inl e, this1)
         | Inr prefix \<Rightarrow>
             (case writeUInt32BE (int (length packet)) 2 prefix of
                Inl e \<Rightarrow> (Inl e, this1)
              | Inr prefix \<Rightarrow>
                  (case socket_write (prefix @ packet) (socket this1) of
                     (r, s) \<Rightarrow> (r, this1\<lparr>socket := s\<rparr>))))"

definition destroy :: "MumbleAudioStream \<Rightarrow> MumbleAudioStream" where
  "destroy this =
     (let this1 = this\<lparr>audioSubject := Subject_complete (audioSubject this)\<rparr>
      in case originalDecodeAudio this1 of
           Some f \<Rightarrow> this1\<lparr>socket := (socket this1)\<lparr>decodeAudio := Fn f\<rparr>\<rparr>
         | None \<Rightarrow> this1)"

text \<open>
  The buffer \<open>sendAudio\<close> hands to \<open>write\<close> for a packet shorter than \<open>2^32\<close> bytes:
  the six bytes of the prefix after both writes, then the packet.
\<close>

definition envelope :: "Buffer \<Rightarrow> Buffer" where
  "envelope packet =
     [0, 1, word_of_int (int (length packet) div 2 ^ 24),
      word_of_int (int (length packet) div 2 ^ 16),
      word_of_int (int (length packet) div 2 ^ 8),
      word_of_int (int (length packet))] @ packet"

text \<open>A sequence of bytes read as a big-endian unsigned number.\<close>

definition be_value :: "Buffer \<Rightarrow> int" where
  "be_value bs = foldl (\<lambda>acc b. acc * 256 + uint b) 0 bs"

text \<open>
  The life of one stream: calls of \<open>sendAudio\<close> and \<open>destroy\<close> by the application and
  frames handed over by the host, in the order they happen.
\<close>

datatype event = SendAudio Buffer AudioCodec int bool | Frame Buffer | Destroy

fun step :: "event \<Rightarrow> MumbleAudioStream \<Rightarrow> MumbleAudioStream" where
  "step (SendAudio data c t term) this = snd (sendAudio data c t term this)"
| "step (Frame data) this =
     (case socket_decodeAudio data this of Some this' \<Rightarrow> this' | None \<Rightarrow> this)"
| "step Destroy this = destroy this"

fun run :: "event list \<Rightarrow> MumbleAudioStream \<Rightarrow> MumbleAudioStream" where
  "run [] this = this"
| "run (e # es) this = run es (step e this)"

fun is_send :: "event \<Rightarrow> bool" where
  "is_send (SendAudio data c t term) = True"
| "is_send e = False"


section \<open>The varint reader\<close>

declare readVarint_loop.simps [simp del]
declare writeVarint_loop.simps [simp del]

lemma readVarint_loop_scan:
  "readVarint_loop buffer offset val bytesRead shift =
     (case varint_scan (drop (offset + bytesRead) buffer) val shift of
        (v, n) \<Rightarrow> (v, bytesRead + n))"
proof (induction buffer offset val bytesRead shift rule: readVarint_loop.induct)
  case (1 buffer offset val bytesRead shift)
  show ?case
  proof (cases "offset + bytesRead < length buffer")
    case False
    then show ?thesis by (subst readVarint_loop.simps) simp
  next
    case inside: True
    then have d: "drop (offset + bytesRead) buffer =
        buffer ! (offset + bytesRead) # drop (offset + (bytesRead + 1)) buffer"
      by (simp add: Cons_nth_drop_Suc)
    show ?thesis
    proof (cases "buffer ! (offset + bytesRead) AND 0x80 = 0")
      case True
      with inside d show ?thesis
        by (subst readVarint_loop.simps) (simp add: Let_def)
    next
      case False
      with inside d "1.IH"[OF inside refl refl refl False]
      show ?thesis
        by (subst readVarint_loop.simps) (simp add: Let_def split: prod.splits)
    qed
  qed
qed

lemma readVarint_scan:
  "readVarint buffer offset =
     (case varint_scan (drop offset buffer) 0 0 of (v, n) \<Rightarrow> (sint v, n))"
  by (simp add: readVarint_def readVarint_loop_scan split: prod.splits)

lemma varint_consumed_Nil: "varint_consumed [] = 0"
  by (simp add: varint_consumed_def)

lemma varint_consumed_Cons:
  "varint_consumed (b # bs) = (if b AND 0x80 = 0 then 1 else 1 + varint_consumed bs)"
  by (simp add: varint_consumed_def Let_def)

lemma varint_consumed_le: "varint_consumed bs \<le> length bs"
  by (induction bs) (simp_all add: varint_consumed_Nil varint_consumed_Cons)

lemma snd_varint_scan: "snd (varint_scan bs acc shift) = varint_consumed bs"
  by (induction bs arbitrary: acc shift)
    (simp_all add: varint_consumed_Nil varint_consumed_Cons Let_def case_prod_unfold)

lemma fst_varint_scan:
  "fst (varint_scan bs acc (7 * k)) =
     fold (\<lambda>(i, b) acc. acc OR push_bit (7 * i mod 32) (ucast (b AND 0x7f)))
       (enumerate k (take (varint_consumed bs) bs)) acc"
proof (induction bs arbitrary: acc k)
  case Nil
  show ?case by (simp add: varint_consumed_Nil)
next
  case (Cons b bs)
  have s: "7 * k + 7 = 7 * Suc k" by simp
  show ?case
    using Cons.IH[of "acc OR push_bit (7 * k mod 32) (ucast (b AND 0x7f))" "Suc k"]
    by (simp add: varint_consumed_Cons Let_def s case_prod_unfold del: mult_Suc_right)
qed

lemma readVarint_spec:
  "readVarint buffer offset =
     (varint_accumulate (take (varint_consumed (drop offset buffer)) (drop offset buffer)),
      varint_consumed (drop offset buffer))"
proof -
  obtain v n where vn: "varint_scan (drop offset buffer) 0 0 = (v, n)"
    by (cases "varint_scan (drop offset buffer) 0 0")
  have "n = varint_consumed (drop offset buffer)"
    using snd_varint_scan[of "drop offset buffer" 0 0] vn by simp
  moreover have "v = fold (\<lambda>(i, b) acc. acc OR push_bit (7 * i mod 32) (ucast (b AND 0x7f)))
       (enumerate 0 (take (varint_consumed (drop offset buffer)) (drop offset buffer))) 0"
    using fst_varint_scan[of "drop offset buffer" 0 0] vn by simp
  ultimately show ?thesis
    by (simp add: readVarint_scan vn varint_accumulate_def)
qed

lemma bytesRead_le: "snd (readVarint buffer offset) \<le> length buffer - offset"
  using varint_consumed_le[of "drop offset buffer"] by (simp add: readVarint_spec)

lemma readVarint_past_end: "length buffer \<le> offset \<Longrightarrow> readVarint buffer offset = (0, 0)"
  by (simp add: readVarint_scan)


lemma varint_consumed_continuation:
  "i < varint_consumed bs - 1 \<Longrightarrow> bs ! i AND 0x80 \<noteq> 0"
proof (induction bs arbitrary: i)
  case Nil
  then show ?case by (simp add: varint_consumed_Nil)
next
  case (Cons b bs)
  then show ?case
    by (cases i) (auto simp: varint_consumed_Cons split: if_splits)
qed

lemma varint_consumed_stop:
  "(0 < varint_consumed bs \<and> bs ! (varint_consumed bs - 1) AND 0x80 = 0) \<or>
   (varint_consumed bs = length bs \<and> (\<forall>b \<in> set bs. b AND 0x80 \<noteq> 0))"
  by (induction bs) (auto simp: varint_consumed_Nil varint_consumed_Cons)

section \<open>The varint writer\<close>

lemma writeVarint_induct [case_names step]:
  assumes "\<And>v. (0x7f < v \<Longrightarrow> P (drop_bit 7 (take_bit 32 v))) \<Longrightarrow> P v"
  shows "P (v :: int)"
proof -
  have "P v" for bytes :: "int list"
    by (induction v bytes rule: writeVarint_loop.induct) (rule assms, simp)
  then show ?thesis .
qed

lemma writeVarint_loop_acc: "writeVarint_loop v bs = bs @ writeVarint_loop v []"
proof (induction v arbitrary: bs rule: writeVarint_induct)
  case (step v)
  show ?case
  proof (cases "0x7f < v")
    case True
    show ?thesis
      using True step[OF True, of "bs @ [(v AND 0x7f) OR 0x80]"]
        step[OF True, of "[(v AND 0x7f) OR 0x80]"]
      by (subst (1 2) writeVarint_loop.simps) simp
  next
    case False
    then show ?thesis by (subst (1 2) writeVarint_loop.simps) simp
  qed
qed

lemma writeVarint_unfold:
  "writeVarint v =
     (if v > 0x7f
      then word_of_int ((v AND 0x7f) OR 0x80) # writeVarint (drop_bit 7 (take_bit 32 v))
      else [word_of_int (v AND 0x7f)])"
  unfolding writeVarint_def
  by (subst writeVarint_loop.simps) (simp add: writeVarint_loop_acc[of _ "[_]"])

lemma numeral_7f_mask: "(0x7f :: 'a::len word) = mask 7" "(0x7f :: int) = mask 7"
  by (simp_all add: mask_eq_exp_minus_1)

lemma bit_128_int: "bit (128::int) n \<longleftrightarrow> n = 7"
proof -
  have "(128::int) = 2 ^ 7" by simp
  then show ?thesis by (simp only: bit_exp_iff) simp
qed

lemma bit_128_word: "bit (128::'a::len word) n \<longleftrightarrow> n = 7 \<and> 7 < LENGTH('a)"
proof -
  have "(128::'a word) = 2 ^ 7" by simp
  then show ?thesis by (simp only: bit_exp_iff) (auto simp: possible_bit_word)
qed

lemma low7_of_continuation_byte:
  "ucast ((word_of_int ((v AND 0x7f) OR 0x80) :: byte) AND 0x7f) = (take_bit 7 (word_of_int v) :: 32 word)"
  unfolding numeral_7f_mask
  by (rule bit_eqI) (auto simp: bit_simps bit_128_int)

lemma low7_of_final_byte:
  "ucast ((word_of_int (v AND 0x7f) :: byte) AND 0x7f) = (take_bit 7 (word_of_int v) :: 32 word)"
  unfolding numeral_7f_mask
  by (rule bit_eqI) (auto simp: bit_simps)

lemma continuation_byte_high_bit: "(word_of_int ((v AND 0x7f) OR 0x80) :: byte) AND 0x80 \<noteq> 0"
proof -
  have "bit ((word_of_int ((v AND 0x7f) OR 0x80) :: byte) AND 0x80) 7"
    unfolding numeral_7f_mask by (simp add: bit_simps bit_128_int bit_128_word)
  then show ?thesis by auto
qed

lemma final_byte_high_bit: "(word_of_int (v AND 0x7f) :: byte) AND 0x80 = 0"
  unfolding numeral_7f_mask
  by (rule bit_eqI) (auto simp: bit_simps bit_128_int bit_128_word)

lemma split_low7: "take_bit 7 w OR push_bit 7 (drop_bit 7 w) = (w :: 32 word)"
proof (rule bit_eqI)
  fix n
  show "bit (take_bit 7 w OR push_bit 7 (drop_bit 7 w)) n = bit w n"
    by (cases "n < 7") (auto simp: bit_simps dest: bit_imp_le_length)
qed

lemma drop7_word_of_int:
  "drop_bit 7 (word_of_int v :: 32 word) = word_of_int (drop_bit 7 (take_bit 32 v))"
  by (rule bit_eqI) (auto simp: bit_simps)

lemma take7_small: "0 \<le> v \<Longrightarrow> v \<le> 0x7f \<Longrightarrow> take_bit 7 (word_of_int v :: 32 word) = word_of_int v"
proof -
  assume "0 \<le> v" "v \<le> 0x7f"
  then have "take_bit 7 v = v" by (simp add: take_bit_int_eq_self)
  moreover have "take_bit 7 (word_of_int v :: 32 word) = word_of_int (take_bit 7 v)"
    by (rule bit_eqI) (auto simp: bit_simps)
  ultimately show ?thesis by simp
qed

lemma writeVarint_step_range:
  assumes "0x7f < (v::int)" "v < 2 ^ (32 - shift)" "shift < 32"
  shows "shift + 7 < 32 \<and> 0 \<le> drop_bit 7 (take_bit 32 v) \<and>
         drop_bit 7 (take_bit 32 v) < 2 ^ (32 - (shift + 7))"
proof -
  have "(2::int) ^ 7 < 2 ^ (32 - shift)" using assms by simp
  then have "7 < 32 - shift" by (simp only: power_strict_increasing_iff)
  then have s7: "shift + 7 < 32" by simp
  have "(2::int) ^ (32 - shift) \<le> 2 ^ 32" by (rule power_increasing) simp_all
  then have t: "take_bit 32 v = v" using assms by (simp add: take_bit_int_eq_self)
  have "32 - shift = (32 - (shift + 7)) + 7" using s7 by simp
  then have "(2::int) ^ (32 - shift) = 2 ^ (32 - (shift + 7)) * 2 ^ 7" by (simp only: power_add)
  then have "v div 2 ^ 7 < 2 ^ (32 - (shift + 7))" using assms(2)
    by (simp add: div_less_iff_less_mult)
  then show ?thesis using s7 assms t by (simp add: drop_bit_eq_div)
qed

lemma scan_writeVarint:
  "0 \<le> v \<Longrightarrow> v < 2 ^ (32 - shift) \<Longrightarrow> shift < 32 \<Longrightarrow>
   varint_scan (writeVarint v @ rest) acc shift =
     (acc OR push_bit shift (word_of_int v), length (writeVarint v))"
proof (induction v arbitrary: acc shift rule: writeVarint_induct)
  case (step v)
  show ?case
  proof (cases "0x7f < v")
    case False
    with step.prems show ?thesis
      by (subst (1 2) writeVarint_unfold)
        (simp add: low7_of_final_byte final_byte_high_bit take7_small)
  next
    case True
    note p = writeVarint_step_range[OF True step.prems(2,3)]
    have ih: "varint_scan (writeVarint (drop_bit 7 (take_bit 32 v)) @ rest)
          (acc OR push_bit shift (take_bit 7 (word_of_int v))) (shift + 7) =
        (acc OR (push_bit shift (take_bit 7 (word_of_int v))
           OR push_bit (shift + 7) (word_of_int (drop_bit 7 (take_bit 32 v)))),
         length (writeVarint (drop_bit 7 (take_bit 32 v))))"
      using step.IH[OF True] p by (simp add: or.assoc)
    have "push_bit shift (take_bit 7 (word_of_int v :: 32 word))
           OR push_bit (shift + 7) (word_of_int (drop_bit 7 (take_bit 32 v)))
          = push_bit shift (take_bit 7 (word_of_int v :: 32 word)
              OR push_bit 7 (drop_bit 7 (word_of_int v)))"
      by (simp add: drop7_word_of_int push_bit_or push_bit_push_bit add.commute flip: push_bit_add)
    then have e: "push_bit shift (take_bit 7 (word_of_int v :: 32 word))
           OR push_bit (shift + 7) (word_of_int (drop_bit 7 (take_bit 32 v)))
          = push_bit shift (word_of_int v)"
      by (simp add: split_low7)
    show ?thesis
      using True step.prems(3) ih
      by (subst (1 2) writeVarint_unfold)
        (simp add: low7_of_continuation_byte continuation_byte_high_bit e)
  qed
qed

lemma readVarint_writeVarint_word:
  "0 \<le> v \<Longrightarrow> v < 2 ^ 32 \<Longrightarrow>
   readVarint (pre @ writeVarint v @ rest) (length pre) =
     (sint (word_of_int v :: 32 word), length (writeVarint v))"
  using scan_writeVarint[of v 0 rest 0] by (simp add: readVarint_scan)

lemma readVarint_writeVarint:
  "0 \<le> v \<Longrightarrow> v < 2 ^ 31 \<Longrightarrow>
   readVarint (pre @ writeVarint v @ rest) (length pre) = (v, length (writeVarint v))"
proof -
  assume v: "0 \<le> v" "v < 2 ^ 31"
  then have "sint (word_of_int v :: 32 word) = v"
    by (simp add: signed_of_int signed_take_bit_int_eq_self)
  then show ?thesis using readVarint_writeVarint_word[of v pre rest] v by simp
qed

lemma readVarint_writeVarint_high:
  "2 ^ 31 \<le> v \<Longrightarrow> v < 2 ^ 32 \<Longrightarrow>
   readVarint (pre @ writeVarint v @ rest) (length pre) = (v - 2 ^ 32, length (writeVarint v))"
proof -
  assume v: "2 ^ 31 \<le> v" "v < 2 ^ 32"
  have "signed_take_bit 31 v = take_bit 32 (v + 2 ^ 31) - 2 ^ 31"
    by (simp add: signed_take_bit_eq_take_bit_shift)
  moreover have "take_bit 32 (v + 2 ^ 31) = v - 2 ^ 31"
  proof -
    have "v + 2 ^ 31 = (v - 2 ^ 31) + 2 ^ 32" by simp
    then have "(v + 2 ^ 31) mod 2 ^ 32 = (v - 2 ^ 31) mod 2 ^ 32"
      by (simp only: mod_add_self2)
    also have "\<dots> = v - 2 ^ 31"
      using v by (intro mod_pos_pos_trivial) simp_all
    finally show ?thesis by (simp only: take_bit_eq_mod)
  qed
  ultimately have "sint (word_of_int v :: 32 word) = v - 2 ^ 32"
    by (simp add: signed_of_int)
  then show ?thesis using readVarint_writeVarint_word[of v pre rest] v by simp
qed


section \<open>Claims about the varint codec\<close>

text \<open>
  C9. \<open>readVarint\<close> is a total function with no failure value: for every buffer and
  offset it returns a pair. With \<open>rest\<close> the bytes from the offset on and \<open>n\<close> the count
  returned: \<open>n\<close> never exceeds the bytes present; every byte consumed before the last
  one has its high bit set; the read stopped either on a byte whose high bit is 0, or
  at the end of the buffer with every byte a continuation byte; and the value returned
  is the value accumulated from exactly the \<open>n\<close> bytes read.
\<close>

theorem readVarint_total_lenient:
  "(let rest = drop offset buffer; n = snd (readVarint buffer offset)
    in n \<le> length rest \<and>
       (\<forall>i. i < n - 1 \<longrightarrow> rest ! i AND 0x80 \<noteq> 0) \<and>
       ((0 < n \<and> rest ! (n - 1) AND 0x80 = 0) \<or>
        (n = length rest \<and> (\<forall>b \<in> set rest. b AND 0x80 \<noteq> 0))) \<and>
       readVarint buffer offset = (varint_accumulate (take n rest), n))"
  using varint_consumed_le[of "drop offset buffer"]
    varint_consumed_stop[of "drop offset buffer"]
    varint_consumed_continuation[of _ "drop offset buffer"]
  by (simp add: readVarint_spec Let_def del: length_drop)

theorem readVarint_total_lenient_witness:
  "snd (readVarint [0x05, 0xAC, 0x82] 1) = 2 \<and>
   [0xAC, 0x82 :: byte] ! 0 AND 0x80 \<noteq> 0 \<and>
   readVarint [0x05, 0xAC, 0x82] 1 = (varint_accumulate [0xAC, 0x82], 2) \<and>
   varint_accumulate [0xAC, 0x82] = 300"
  using readVarint_total_lenient[of 1 "[0x05, 0xAC, 0x82]"]
  by (simp add: readVarint_spec varint_consumed_Cons varint_consumed_Nil
      varint_accumulate_def enumerate_eq_zip)

text \<open>
  C10. Called with an offset at or past the end of the buffer, \<open>readVarint\<close> returns
  value 0 and count 0; the count never exceeds the bytes between the offset and the end
  of the buffer; and \<open>parseAudioPacket\<close> on a single byte whose codec tag is not Opus
  returns a packet with source 0, sequence 0 and an empty payload.
\<close>

theorem readVarint_past_end_single_byte_packet:
  "(length buffer \<le> offset \<longrightarrow> readVarint buffer offset = (0, 0)) \<and>
   snd (readVarint buffer offset) \<le> length buffer - offset \<and>
   (drop_bit 5 (uint h) AND 0x07 \<noteq> AudioCodec_value Opus \<longrightarrow>
      parseAudioPacket [h] =
        Some \<lparr>source = 0, codec = drop_bit 5 (uint h) AND 0x07, target = uint h AND 0x1f,
              sequence = 0, audioData = [], isTerminator = False\<rparr>)"
  using bytesRead_le[of buffer offset]
  by (simp add: readVarint_past_end parseAudioPacket_def Let_def)

theorem readVarint_past_end_single_byte_packet_witness:
  "readVarint [0x81, 0x02] 2 = (0, 0) \<and>
   snd (readVarint [0x81, 0x02] 2) \<le> length [0x81, 0x02 :: byte] - 2 \<and>
   parseAudioPacket [0x5f] =
     Some \<lparr>source = 0, codec = 2, target = 31, sequence = 0, audioData = [],
           isTerminator = False\<rparr>"
  using readVarint_past_end_single_byte_packet[of "[0x81, 0x02]" 2 "0x5f"]
  by simp

text \<open>
  C2. The round trip of the varint codec at the value \<open>2^31\<close>, which lies in the
  unsigned 32-bit range: \<open>writeVarint\<close> encodes it in five bytes, and \<open>readVarint\<close>
  returns the negative number \<open>- 2^31\<close> for these bytes, not the value written.
\<close>

theorem readVarint_writeVarint_sign_bit:
  "writeVarint 2147483648 = [0x80, 0x80, 0x80, 0x80, 0x08] \<and>
   readVarint (writeVarint 2147483648) 0 = (- 2147483648, 5)"
  using readVarint_writeVarint_high[of 2147483648 "[]" "[]"]
  by (simp add: writeVarint_unfold)

section \<open>Claims about the packet parser\<close>

lemma offsets_in_buffer:
  "offset \<le> length data \<Longrightarrow> offset + snd (readVarint data offset) \<le> length data"
  using bytesRead_le[of data offset] by simp

lemma opus_length_field_offset:
  "data \<noteq> [] \<Longrightarrow> snd (opus_length_field data) \<le> length data"
proof -
  assume "data \<noteq> []"
  then have "1 \<le> length data" by (cases data) simp_all
  then have "1 + snd (readVarint data 1) \<le> length data"
    using offsets_in_buffer[of 1 data] by simp
  then have "1 + snd (readVarint data 1) + snd (readVarint data (1 + snd (readVarint data 1)))
      \<le> length data"
    using offsets_in_buffer[of "1 + snd (readVarint data 1)" data] by simp
  then show ?thesis
    using offsets_in_buffer[of "1 + snd (readVarint data 1)
        + snd (readVarint data (1 + snd (readVarint data 1)))" data]
    by (simp add: opus_length_field_def Let_def)
qed

text \<open>
  C4. \<open>parseAudioPacket\<close> returns null exactly when the input is empty, or the codec
  tag is Opus and the 13-bit length of the length field exceeds the number of bytes that
  remain after the length varint. Every non-empty input with another codec tag yields a
  packet.
\<close>

theorem parseAudioPacket_null_iff:
  "(parseAudioPacket data = None \<longleftrightarrow>
      data = [] \<or>
      (drop_bit 5 (uint (data ! 0)) AND 0x07 = AudioCodec_value Opus \<and>
       fst (opus_length_field data) AND 0x1fff
         > int (length (drop (snd (opus_length_field data)) data)))) \<and>
   (data \<noteq> [] \<and> drop_bit 5 (uint (data ! 0)) AND 0x07 \<noteq> AudioCodec_value Opus \<longrightarrow>
      parseAudioPacket data \<noteq> None)"
proof (cases "data = []")
  case True
  then show ?thesis by (simp add: parseAudioPacket_def)
next
  case False
  then have "0 < length data" by simp
  moreover have "int (length data - snd (opus_length_field data)) =
      int (length data) - int (snd (opus_length_field data))"
    using opus_length_field_offset[OF False] by simp
  ultimately show ?thesis
    using False
    by (auto simp: parseAudioPacket_def opus_length_field_def Let_def)
qed

theorem parseAudioPacket_null_iff_witness:
  "parseAudioPacket [0x80, 0x01, 0x02, 0x05] = None \<and>
   parseAudioPacket [0x80, 0x01, 0x02, 0x02, 0x0a, 0x0b] \<noteq> None \<and>
   parseAudioPacket [0x40, 0x01] \<noteq> None \<and>
   parseAudioPacket [] = None"
  using parseAudioPacket_null_iff[of "[0x80, 0x01, 0x02, 0x05]"]
    parseAudioPacket_null_iff[of "[0x80, 0x01, 0x02, 0x02, 0x0a, 0x0b]"]
    parseAudioPacket_null_iff[of "[0x40, 0x01]"]
    parseAudioPacket_null_iff[of "[]"]
  by (simp add: opus_length_field_def readVarint_spec varint_consumed_Cons varint_consumed_Nil
      varint_accumulate_def enumerate_eq_zip)

section \<open>Round trip of the packet codec\<close>

lemma numeral_masks:
  "(0x1f :: int) = mask 5" "(0x07 :: int) = mask 3" "(0x1fff :: int) = mask 13"
  by (simp_all add: mask_eq_exp_minus_1)

lemma header_byte:
  "uint (word_of_int (push_bit 5 (take_bit 3 cv) OR take_bit 5 t) :: byte) =
     push_bit 5 (take_bit 3 cv) OR take_bit 5 t"
proof -
  have "take_bit 8 (push_bit 5 (take_bit 3 cv) OR take_bit 5 t) =
      push_bit 5 (take_bit 3 cv) OR take_bit 5 (t :: int)"
    by (rule bit_eqI) (auto simp: bit_simps)
  then show ?thesis by (simp add: unsigned_of_int)
qed

lemma header_codec:
  "drop_bit 5 (push_bit 5 (take_bit 3 cv) OR take_bit 5 t) AND 0x07 = take_bit 3 (cv :: int)"
  unfolding numeral_masks
  by (rule bit_eqI) (auto simp: bit_simps)

lemma header_target:
  "(push_bit 5 (take_bit 3 cv) OR take_bit 5 t) AND 0x1f = take_bit 5 (t :: int)"
  unfolding numeral_masks
  by (rule bit_eqI) (auto simp: bit_simps)

lemma bit_8192_int: "bit (8192::int) n \<longleftrightarrow> n = 13"
proof -
  have "(8192::int) = 2 ^ 13" by simp
  then show ?thesis by (simp only: bit_exp_iff) simp
qed

lemma length_field_plain:
  "take_bit 13 n AND 0x1fff = take_bit 13 (n::int)" "take_bit 13 (n::int) AND 0x2000 = 0"
  unfolding numeral_masks
  by (rule bit_eqI, auto simp: bit_simps bit_8192_int)+

lemma length_field_terminator:
  "(take_bit 13 n OR 0x2000) AND 0x1fff = take_bit 13 (n::int)"
  "(take_bit 13 (n::int) OR 0x2000) AND 0x2000 \<noteq> 0"
proof -
  show "(take_bit 13 n OR 0x2000) AND 0x1fff = take_bit 13 (n::int)"
    unfolding numeral_masks by (rule bit_eqI) (auto simp: bit_simps bit_8192_int)
  have "bit ((take_bit 13 (n::int) OR 0x2000) AND 0x2000) 13"
    by (simp add: bit_simps bit_8192_int)
  then show "(take_bit 13 (n::int) OR 0x2000) AND 0x2000 \<noteq> 0" by auto
qed

lemma length_field_range:
  "0 \<le> take_bit 13 (n::int) OR 0x2000" "take_bit 13 (n::int) OR 0x2000 < 2 ^ 31"
  "0 \<le> take_bit 13 (n::int)" "take_bit 13 (n::int) < 2 ^ 31"
proof -
  have "take_bit 13 (n::int) OR 0x2000 = take_bit 14 (take_bit 13 n OR 0x2000)"
    by (rule bit_eqI) (auto simp: bit_simps bit_8192_int)
  moreover have "take_bit 14 (take_bit 13 n OR 0x2000) < (2::int) ^ 14" by (rule take_bit_int_less_exp)
  ultimately show "take_bit 13 (n::int) OR 0x2000 < 2 ^ 31" by simp
  show "0 \<le> take_bit 13 (n::int) OR 0x2000" by simp
  show "0 \<le> take_bit 13 (n::int)" by simp
  have "take_bit 13 n < (2::int) ^ 13" by (rule take_bit_int_less_exp)
  then show "take_bit 13 (n::int) < 2 ^ 31" by simp
qed

lemma AudioCodec_value_bits: "AudioCodec_value c AND 0x07 = take_bit 3 (AudioCodec_value c)"
  "take_bit 3 (AudioCodec_value c) = AudioCodec_value c"
  by (cases c; simp add: take_bit_eq_mod)+

lemma target_bits: "t AND 0x1f = take_bit 5 (t::int)"
  unfolding numeral_masks by (simp add: take_bit_eq_mask)

lemma target_in_range: "0 \<le> t \<Longrightarrow> t \<le> 31 \<Longrightarrow> take_bit 5 t = (t::int)"
  by (simp add: take_bit_int_eq_self)

lemma length_bits: "int n AND 0x1fff = take_bit 13 (int n)"
  unfolding numeral_masks by (simp add: take_bit_eq_mask)

lemma length_in_range: "n \<le> 0x1fff \<Longrightarrow> take_bit 13 (int n) = int n"
  by (simp add: take_bit_int_eq_self)

lemma createAudioPacket_layout:
  "createAudioPacket c t seq payload term =
     word_of_int (push_bit 5 (take_bit 3 (AudioCodec_value c)) OR take_bit 5 t)
       # writeVarint seq
       @ (if c = Opus
          then writeVarint (if term then take_bit 13 (int (length payload)) OR 0x2000
                            else take_bit 13 (int (length payload))) @ payload
          else payload)"
  by (simp add: createAudioPacket_def Let_def AudioCodec_value_bits(1) target_bits length_bits)

lemma parse_inbound:
  assumes s: "0 \<le> s" "s < 2 ^ 31" and q: "0 \<le> seq" "seq < 2 ^ 31"
  shows "parseAudioPacket (h # writeVarint s @ writeVarint seq @ tail) =
     (let codec = drop_bit 5 (uint h) AND 0x07; target = uint h AND 0x1f
      in if codec = 4 then
           let opusHeader = readVarint tail 0;
               audioLength = fst opusHeader AND 0x1fff
           in if int (snd opusHeader) + audioLength > int (length tail) then None
              else Some \<lparr>source = s, codec = codec, target = target, sequence = seq,
                        audioData = take (nat audioLength) (drop (snd opusHeader) tail),
                        isTerminator = (fst opusHeader AND 0x2000 \<noteq> 0)\<rparr>
         else Some \<lparr>source = s, codec = codec, target = target, sequence = seq,
                   audioData = tail, isTerminator = False\<rparr>)"
proof -
  let ?data = "h # writeVarint s @ writeVarint seq @ tail"
  have r1: "readVarint ?data (Suc 0) = (s, length (writeVarint s))"
    using readVarint_writeVarint[OF s, of "[h]" "writeVarint seq @ tail"] by simp
  have r2: "readVarint ?data (Suc (length (writeVarint s))) = (seq, length (writeVarint seq))"
    using readVarint_writeVarint[OF q, of "h # writeVarint s" tail] by simp
  have r3: "readVarint ?data (Suc (length (writeVarint s) + length (writeVarint seq))) =
      readVarint tail 0"
    by (simp add: readVarint_scan)
  show ?thesis
    by (simp add: parseAudioPacket_def Let_def r1 r2 r3)
qed


lemma AudioCodec_value_Opus: "AudioCodec_value c = 4 \<longleftrightarrow> c = Opus"
  by (cases c) simp_all

text \<open>
  C1, as stated, at a concrete packet: the bytes that \<open>createAudioPacket\<close> produces
  for sequence 5 and payload \<open>[1, 2, 3]\<close> parse to sequence 3 and payload \<open>[2]\<close>, with
  the sequence number in the source field.
\<close>

theorem parse_create_counterexample:
  "parseAudioPacket (createAudioPacket Opus 0 5 [1, 2, 3] False) =
     Some \<lparr>source = 5, codec = 4, target = 0, sequence = 3, audioData = [2],
           isTerminator = False\<rparr>"
  by (simp add: createAudioPacket_def writeVarint_unfold parseAudioPacket_def
      readVarint_spec varint_consumed_Cons varint_consumed_Nil varint_accumulate_def
      enumerate_eq_zip)

text \<open>
  C1, amended. The round trip holds for the inbound layout: once the session varint
  stands between the header byte and the sequence number, \<open>parseAudioPacket\<close> returns
  the session as source and exactly the codec, target, sequence and payload given to
  \<open>createAudioPacket\<close>, for every codec, target in [0, 31], sequence and session in
  [0, 2^31), and payload of at most 0x1fff bytes when the codec is Opus. The terminator
  flag is returned for Opus; for every other codec the parser returns false.
\<close>

theorem parse_create_with_session:
  assumes t: "0 \<le> t" "t \<le> 31"
    and q: "0 \<le> seq" "seq < 2 ^ 31"
    and s: "0 \<le> s" "s < 2 ^ 31"
    and len: "c = Opus \<longrightarrow> length payload \<le> 0x1fff"
  shows "parseAudioPacket (with_session s (createAudioPacket c t seq payload term)) =
     Some \<lparr>source = s, codec = AudioCodec_value c, target = t, sequence = seq,
           audioData = payload, isTerminator = (c = Opus \<and> term)\<rparr>"
proof -
  define h :: byte
    where "h = word_of_int (push_bit 5 (take_bit 3 (AudioCodec_value c)) OR take_bit 5 t)"
  define cv where "cv = AudioCodec_value c"
  have "drop_bit 5 (uint h) AND 0x07 = take_bit 3 (AudioCodec_value c)"
    unfolding h_def by (simp only: header_byte header_codec)
  then have hc: "drop_bit 5 (uint h) AND 0x07 = cv"
    unfolding cv_def by (simp only: AudioCodec_value_bits(2))
  have "uint h AND 0x1f = take_bit 5 t"
    unfolding h_def by (simp only: header_byte header_target)
  then have ht: "uint h AND 0x1f = t"
    by (simp only: target_in_range[OF t])
  have opus: "cv = 4 \<longleftrightarrow> c = Opus"
    unfolding cv_def by (rule AudioCodec_value_Opus)
  show ?thesis
  proof (cases "c = Opus")
    case False
    have packet: "with_session s (createAudioPacket c t seq payload term) =
        h # writeVarint s @ writeVarint seq @ payload"
      using False by (simp add: createAudioPacket_layout with_session_def h_def)
    show ?thesis
      unfolding packet using False opus
      by (simp add: parse_inbound[OF s q] Let_def hc ht cv_def[symmetric])
  next
    case True
    define lf where "lf = (if term then take_bit 13 (int (length payload)) OR 0x2000
                            else take_bit 13 (int (length payload)))"
    have lf_range: "0 \<le> lf" "lf < 2 ^ 31"
      using length_field_range[of "int (length payload)"] by (simp_all add: lf_def)
    have n: "take_bit 13 (int (length payload)) = int (length payload)"
      using len True by (simp add: length_in_range)
    have lf_len: "lf AND 0x1fff = int (length payload)"
      using length_field_plain(1)[of "int (length payload)"]
        length_field_terminator(1)[of "int (length payload)"]
      by (simp add: lf_def n)
    have lf_term: "lf AND 0x2000 \<noteq> 0 \<longleftrightarrow> term"
      using length_field_plain(2)[of "int (length payload)"]
        length_field_terminator(2)[of "int (length payload)"]
      by (simp add: lf_def n)
    have r: "readVarint (writeVarint lf @ payload) 0 = (lf, length (writeVarint lf))"
      using readVarint_writeVarint[OF lf_range, of "[]" payload] by simp
    have packet: "with_session s (createAudioPacket c t seq payload term) =
        h # writeVarint s @ writeVarint seq @ writeVarint lf @ payload"
      using True by (simp add: createAudioPacket_layout with_session_def lf_def h_def)
    have result: "\<lparr>source = s, codec = AudioCodec_value c, target = t, sequence = seq,
           audioData = payload, isTerminator = (c = Opus \<and> term)\<rparr> =
        \<lparr>source = s, codec = cv, target = t, sequence = seq,
           audioData = payload, isTerminator = term\<rparr>"
      using True by (simp add: cv_def)
    show ?thesis
      unfolding packet result using opus True
      by (simp add: parse_inbound[OF s q] Let_def hc ht r lf_len lf_term)
  qed
qed

theorem parse_create_with_session_witness:
  "parseAudioPacket (with_session 7 (createAudioPacket Opus 3 300 [1, 2, 3] True)) =
     Some \<lparr>source = 7, codec = 4, target = 3, sequence = 300, audioData = [1, 2, 3],
           isTerminator = True\<rparr> \<and>
   with_session 7 (createAudioPacket Opus 3 300 [1, 2, 3] True) =
     [0x83, 0x07, 0xAC, 0x02, 0x83, 0x40, 1, 2, 3]"
  using parse_create_with_session[of 3 300 7 Opus "[1, 2, 3]" True]
  by (simp add: with_session_def createAudioPacket_def writeVarint_unfold)


section \<open>The stream adapter\<close>

lemma prefix_type: "writeUInt16BE 1 0 (Buffer_alloc 6) = Inr [0, 1, 0, 0, 0, 0]"
  by (simp add: writeUInt16BE_def Buffer_alloc_def eval_nat_numeral)

lemma prefix_length:
  "0 \<le> L \<Longrightarrow> L < 2 ^ 32 \<Longrightarrow>
   writeUInt32BE L 2 [0, 1, 0, 0, 0, 0] =
     Inr [0, 1, word_of_int (L div 2 ^ 24), word_of_int (L div 2 ^ 16),
          word_of_int (L div 2 ^ 8), word_of_int L]"
  by (simp add: writeUInt32BE_def eval_nat_numeral)

lemma prefix_length_range:
  "2 ^ 32 \<le> L \<Longrightarrow> writeUInt32BE L 2 buf = Inl ERR_OUT_OF_RANGE"
  by (simp add: writeUInt32BE_def)

lemma sendAudio_cases:
  "sendAudio data c t term this =
     (let packet = createAudioPacket c t (stream_sequence this) data term;
          this1 = this\<lparr>stream_sequence := stream_sequence this + 1\<rparr>
      in if 2 ^ 32 \<le> int (length packet) then (Inl ERR_OUT_OF_RANGE, this1)
         else if accepting (socket this)
           then (Inr (), this1\<lparr>socket := (socket this)\<lparr>written :=
                   written (socket this) @ [envelope packet]\<rparr>\<rparr>)
           else (Inl TransportWriteFailure, this1))"
  by (simp add: sendAudio_def Let_def prefix_type prefix_length prefix_length_range
      socket_write_def envelope_def)

lemma be_value_uint32:
  assumes "0 \<le> L" "L < 2 ^ 32"
  shows "be_value [word_of_int (L div 2 ^ 24), word_of_int (L div 2 ^ 16),
                   word_of_int (L div 2 ^ 8), word_of_int L] = L"
proof -
  define d1 where "d1 = L div 256"
  define d2 where "d2 = d1 div 256"
  define d3 where "d3 = d2 div 256"
  have e1: "L div 2 ^ 8 = d1" by (simp add: d1_def)
  have e2: "L div 2 ^ 16 = d2"
    using zdiv_zmult2_eq[of 256 L 256] by (simp add: d1_def d2_def)
  have e3: "L div 2 ^ 24 = d3"
    using zdiv_zmult2_eq[of 256 L 65536] e2 by (simp add: d3_def)
  have "d3 < 256" "0 \<le> d3" using assms by (simp_all add: e3[symmetric])
  then have m3: "d3 mod 256 = d3" by simp
  have s1: "L = d1 * 256 + L mod 256" by (simp add: d1_def)
  have s2: "d1 = d2 * 256 + d1 mod 256" by (simp add: d2_def)
  have s3: "d2 = d3 * 256 + d2 mod 256" by (simp add: d3_def)
  have "be_value [word_of_int d3, word_of_int d2, word_of_int d1, word_of_int L] =
      ((d3 mod 256 * 256 + d2 mod 256) * 256 + d1 mod 256) * 256 + L mod 256"
    by (simp add: be_value_def unsigned_of_int take_bit_eq_mod)
  also have "\<dots> = L" using s1 s2 s3 m3 by presburger
  finally show ?thesis by (simp only: e1 e2 e3)
qed

lemma call_fn_delivered:
  "call_fn f data s = s\<lparr>delivered := delivered s @ [(fn_target f, data)]\<rparr>"
  by (induction f) simp_all

lemma new_attached:
  "decodeAudio s = Fn f \<Longrightarrow>
   new_MumbleAudioStream s =
     \<lparr>socket = s\<lparr>decodeAudio := Fn (Hook (allocated s + 1)), allocated := allocated s + 2\<rparr>,
      audioSubject = \<lparr>isStopped = False, emitted = []\<rparr>,
      stream_sequence = 0,
      originalDecodeAudio = Some (Bound (allocated s) f)\<rparr>"
  by (simp add: new_MumbleAudioStream_def hookAudioDecoding_def Let_def)

lemma new_unattached:
  "decodeAudio s = NotAFunction \<Longrightarrow>
   new_MumbleAudioStream s =
     \<lparr>socket = s, audioSubject = \<lparr>isStopped = False, emitted = []\<rparr>,
      stream_sequence = 0, originalDecodeAudio = None\<rparr>"
  by (simp add: new_MumbleAudioStream_def hookAudioDecoding_def)

lemma new_sequence: "stream_sequence (new_MumbleAudioStream s) = 0"
  by (cases "decodeAudio s") (simp_all add: new_attached new_unattached)

lemma sendAudio_sequence:
  "stream_sequence (snd (sendAudio data c t term this)) = stream_sequence this + 1"
  by (simp add: sendAudio_cases Let_def)

lemma sendAudio_keeps:
  "originalDecodeAudio (snd (sendAudio data c t term this)) = originalDecodeAudio this"
  "audioSubject (snd (sendAudio data c t term this)) = audioSubject this"
  "decodeAudio (socket (snd (sendAudio data c t term this))) = decodeAudio (socket this)"
  "delivered (socket (snd (sendAudio data c t term this))) = delivered (socket this)"
  by (simp_all add: sendAudio_cases Let_def)

lemma hooked_keeps:
  "stream_sequence (hooked_decodeAudio data this) = stream_sequence this"
  "originalDecodeAudio (hooked_decodeAudio data this) = originalDecodeAudio this"
  "decodeAudio (socket (hooked_decodeAudio data this)) = decodeAudio (socket this)"
  "written (socket (hooked_decodeAudio data this)) = written (socket this)"
  "isStopped (audioSubject (hooked_decodeAudio data this)) = isStopped (audioSubject this)"
  by (simp_all add: hooked_decodeAudio_def Let_def call_fn_delivered Subject_next_def
      split: option.splits)

lemma destroy_keeps:
  "stream_sequence (destroy this) = stream_sequence this"
  "originalDecodeAudio (destroy this) = originalDecodeAudio this"
  by (simp_all add: destroy_def Let_def split: option.splits)

lemma frame_keeps:
  assumes "socket_decodeAudio data this = Some this'"
  shows "stream_sequence this' = stream_sequence this"
    and "originalDecodeAudio this' = originalDecodeAudio this"
    and "decodeAudio (socket this') = decodeAudio (socket this)"
    and "written (socket this') = written (socket this)"
    and "isStopped (audioSubject this') = isStopped (audioSubject this)"
  using assms
  by (auto simp: socket_decodeAudio_def hooked_keeps call_fn_delivered
      split: jsval.splits fn.splits)

lemma step_Frame:
  obtains "step (Frame data) this = this"
  | this' where "step (Frame data) this = this'" "socket_decodeAudio data this = Some this'"
  by (cases "socket_decodeAudio data this") simp_all

lemma step_sequence:
  "stream_sequence (step e this) = stream_sequence this + (if is_send e then 1 else 0)"
proof (cases e)
  case (SendAudio data c t fin)
  then show ?thesis by (simp add: sendAudio_sequence)
next
  case (Frame data)
  have "stream_sequence (step (Frame data) this) = stream_sequence this"
    by (rule step_Frame[of data this]) (simp_all only: frame_keeps(1))
  then show ?thesis unfolding Frame by simp
next
  case Destroy
  then show ?thesis by (simp add: destroy_keeps)
qed

lemma step_original: "originalDecodeAudio (step e this) = originalDecodeAudio this"
proof (cases e)
  case (SendAudio data c t fin)
  then show ?thesis by (simp add: sendAudio_keeps)
next
  case (Frame data)
  have "originalDecodeAudio (step (Frame data) this) = originalDecodeAudio this"
    by (rule step_Frame[of data this]) (simp_all only: frame_keeps(2))
  then show ?thesis unfolding Frame .
next
  case Destroy
  then show ?thesis by (simp add: destroy_keeps)
qed

lemma run_sequence:
  "stream_sequence (run es this) = stream_sequence this + int (length (filter is_send es))"
proof (induction es arbitrary: this)
  case Nil
  show ?case by simp
next
  case (Cons e es)
  show ?case
    unfolding run.simps Cons.IH step_sequence by (cases "is_send e") simp_all
qed

lemma run_original: "originalDecodeAudio (run es this) = originalDecodeAudio this"
proof (induction es arbitrary: this)
  case Nil
  show ?case by simp
next
  case (Cons e es)
  show ?case unfolding run.simps Cons.IH step_original ..
qed

lemma step_hook:
  assumes "e \<noteq> Destroy"
  shows "decodeAudio (socket (step e this)) = decodeAudio (socket this)"
    and "isStopped (audioSubject (step e this)) = isStopped (audioSubject this)"
proof -
  have "decodeAudio (socket (step e this)) = decodeAudio (socket this) \<and>
      isStopped (audioSubject (step e this)) = isStopped (audioSubject this)"
  proof (cases e)
    case (SendAudio data c t fin)
    then show ?thesis by (simp add: sendAudio_keeps)
  next
    case (Frame data)
    have "decodeAudio (socket (step (Frame data) this)) = decodeAudio (socket this) \<and>
      isStopped (audioSubject (step (Frame data) this)) = isStopped (audioSubject this)"
      by (rule step_Frame[of data this]) (simp_all only: frame_keeps(3) frame_keeps(5))
    then show ?thesis unfolding Frame .
  next
    case Destroy
    with assms show ?thesis by simp
  qed
  then show "decodeAudio (socket (step e this)) = decodeAudio (socket this)"
    and "isStopped (audioSubject (step e this)) = isStopped (audioSubject this)"
    by simp_all
qed

lemma run_hook:
  assumes "Destroy \<notin> set es"
  shows "decodeAudio (socket (run es this)) = decodeAudio (socket this)"
    and "isStopped (audioSubject (run es this)) = isStopped (audioSubject this)"
proof -
  have "decodeAudio (socket (run es this)) = decodeAudio (socket this) \<and>
      isStopped (audioSubject (run es this)) = isStopped (audioSubject this)"
    using assms
  proof (induction es arbitrary: this)
    case Nil
    show ?case by simp
  next
    case (Cons e es)
    then have e: "e \<noteq> Destroy" and es: "Destroy \<notin> set es" by auto
    show ?case
      unfolding run.simps using Cons.IH[OF es, of "step e this"] step_hook[OF e, of this]
      by (simp only:)
  qed
  then show "decodeAudio (socket (run es this)) = decodeAudio (socket this)"
    and "isStopped (audioSubject (run es this)) = isStopped (audioSubject this)"
    by simp_all
qed

lemma run_attached:
  assumes "decodeAudio s = Fn f" "Destroy \<notin> set es"
  shows "decodeAudio (socket (run es (new_MumbleAudioStream s))) = Fn (Hook (allocated s + 1))"
    and "originalDecodeAudio (run es (new_MumbleAudioStream s)) = Some (Bound (allocated s) f)"
    and "\<not> isStopped (audioSubject (run es (new_MumbleAudioStream s)))"
  using run_hook[OF assms(2), of "new_MumbleAudioStream s"]
    run_original[of es "new_MumbleAudioStream s"]
  by (simp_all add: new_attached[OF assms(1)])

lemma hooked_decodeAudio_attached:
  assumes "originalDecodeAudio this = Some g" "\<not> isStopped (audioSubject this)"
  shows "delivered (socket (hooked_decodeAudio data this)) =
           delivered (socket this) @ [(fn_target g, data)]"
    and "emitted (audioSubject (hooked_decodeAudio data this)) =
           emitted (audioSubject this) @
             (case parseAudioPacket data of None \<Rightarrow> [] | Some packet \<Rightarrow> [packet])"
  using assms
  by (simp_all add: hooked_decodeAudio_def Let_def call_fn_delivered Subject_next_def
      split: option.splits)

text \<open>
  C5. While the stream is attached (constructed on a socket whose \<open>decodeAudio\<close> is a
  function \<open>f\<close>, and not yet destroyed), every frame the host hands to
  \<open>socket.decodeAudio\<close> reaches \<open>f\<close> exactly once, with the same bytes, whether or not it
  parses; the subscribers are notified of the parsed packet when there is one and of
  nothing when \<open>parseAudioPacket\<close> returns null; nothing is written to the transport.
\<close>

theorem dual_delivery:
  assumes "decodeAudio s = Fn f" and "Destroy \<notin> set es"
  shows "\<exists>this'. socket_decodeAudio data (run es (new_MumbleAudioStream s)) = Some this' \<and>
     delivered (socket this') =
       delivered (socket (run es (new_MumbleAudioStream s))) @ [(fn_target f, data)] \<and>
     emitted (audioSubject this') =
       emitted (audioSubject (run es (new_MumbleAudioStream s))) @
         (case parseAudioPacket data of None \<Rightarrow> [] | Some packet \<Rightarrow> [packet]) \<and>
     written (socket this') = written (socket (run es (new_MumbleAudioStream s)))"
proof -
  let ?st = "run es (new_MumbleAudioStream s)"
  note a = run_attached[OF assms]
  have "socket_decodeAudio data ?st = Some (hooked_decodeAudio data ?st)"
    by (simp add: socket_decodeAudio_def a(1))
  moreover have "delivered (socket (hooked_decodeAudio data ?st)) =
      delivered (socket ?st) @ [(fn_target f, data)]"
    using hooked_decodeAudio_attached(1)[OF a(2) a(3), of data] by simp
  moreover note hooked_decodeAudio_attached(2)[OF a(2) a(3), of data]
    hooked_keeps(4)[of data ?st]
  ultimately show ?thesis by blast
qed

theorem dual_delivery_witness:
  "socket_decodeAudio [0x80, 0x01, 0x02, 0x05]
     (run [Frame [0x40, 0x01, 0x02, 0x09]]
        (new_MumbleAudioStream \<lparr>decodeAudio = Fn (Host 0), accepting = True, written = [],
           delivered = [], allocated = 1\<rparr>)) =
   Some \<lparr>socket = \<lparr>decodeAudio = Fn (Hook 2), accepting = True, written = [],
             delivered = [(0, [0x40, 0x01, 0x02, 0x09]), (0, [0x80, 0x01, 0x02, 0x05])],
             allocated = 3\<rparr>,
         audioSubject = \<lparr>isStopped = False,
             emitted = [\<lparr>source = 1, codec = 2, target = 0, sequence = 2, audioData = [0x09],
                         isTerminator = False\<rparr>]\<rparr>,
         stream_sequence = 0,
         originalDecodeAudio = Some (Bound 1 (Host 0))\<rparr> \<and>
   parseAudioPacket [0x80, 0x01, 0x02, 0x05] = None"
  using dual_delivery[of "\<lparr>decodeAudio = Fn (Host 0), accepting = True, written = [],
           delivered = [], allocated = 1\<rparr>" "Host 0" "[Frame [0x40, 0x01, 0x02, 0x09]]"
           "[0x80, 0x01, 0x02, 0x05]"]
  by (simp add: new_attached socket_decodeAudio_def hooked_decodeAudio_def Let_def
      Subject_next_def parseAudioPacket_def readVarint_spec varint_consumed_Cons
      varint_consumed_Nil varint_accumulate_def enumerate_eq_zip)

lemma createAudioPacket_ends_with_payload:
  "drop (length (createAudioPacket c t seq data fin) - length data)
     (createAudioPacket c t seq data fin) = data"
  by (simp add: createAudioPacket_layout)

lemma envelope_parts:
  assumes "int (length packet) < 2 ^ 32"
  shows "length (envelope packet) = 6 + length packet"
    and "take 2 (envelope packet) = [0, 1]"
    and "be_value (take 4 (drop 2 (envelope packet))) = int (length packet)"
    and "drop 6 (envelope packet) = packet"
  using be_value_uint32[of "int (length packet)"] assms
  by (simp_all add: envelope_def)

text \<open>
  C6. A \<open>sendAudio\<close> that succeeds appends exactly one buffer to what the transport
  has accepted: two bytes that read 1 as a big-endian number, four bytes that read the
  packet length as a big-endian number, then the packet built by \<open>createAudioPacket\<close>
  with the stream's current sequence number.
\<close>

theorem sendAudio_wire_format:
  assumes "fst (sendAudio data c t fin this) = Inr ()"
  shows "\<exists>buf. written (socket (snd (sendAudio data c t fin this))) = written (socket this) @ [buf] \<and>
     length buf = 6 + length (createAudioPacket c t (stream_sequence this) data fin) \<and>
     take 2 buf = [0, 1] \<and>
     be_value (take 2 buf) = 1 \<and>
     be_value (take 4 (drop 2 buf)) =
       int (length (createAudioPacket c t (stream_sequence this) data fin)) \<and>
     drop 6 buf = createAudioPacket c t (stream_sequence this) data fin"
proof -
  let ?packet = "createAudioPacket c t (stream_sequence this) data fin"
  have small: "int (length ?packet) < 2 ^ 32" and acc: "accepting (socket this)"
    using assms by (auto simp: sendAudio_cases Let_def split: if_splits)
  have w: "written (socket (snd (sendAudio data c t fin this))) =
      written (socket this) @ [envelope ?packet]"
    using small acc by (simp add: sendAudio_cases Let_def)
  have "be_value (take 2 (envelope ?packet)) = 1"
    by (simp add: envelope_parts(2)[OF small] be_value_def)
  with w envelope_parts[OF small] show ?thesis by blast
qed

theorem sendAudio_wire_format_witness:
  "fst (sendAudio [1, 2, 3] Opus 0 False
     (new_MumbleAudioStream \<lparr>decodeAudio = Fn (Host 0), accepting = True, written = [],
        delivered = [], allocated = 1\<rparr>)) = Inr () \<and>
   written (socket (snd (sendAudio [1, 2, 3] Opus 0 False
     (new_MumbleAudioStream \<lparr>decodeAudio = Fn (Host 0), accepting = True, written = [],
        delivered = [], allocated = 1\<rparr>)))) =
     [[0, 1, 0, 0, 0, 6, 0x80, 0, 3, 1, 2, 3]]"
  using sendAudio_wire_format[of "[1, 2, 3]" Opus 0 False
     "new_MumbleAudioStream \<lparr>decodeAudio = Fn (Host 0), accepting = True, written = [],
        delivered = [], allocated = 1\<rparr>"]
  by (simp add: new_attached sendAudio_cases Let_def envelope_def createAudioPacket_def
      writeVarint_unfold)

text \<open>
  C7. The counter of a new stream is 0. After any sequence of events it equals the
  number of \<open>sendAudio\<close> calls among them, so each call adds exactly one, whether or not
  the write succeeds; the packet written by the next successful call carries that
  number (the n-th send uses n - 1). Frames and \<open>destroy\<close> leave the counter alone, and
  a stream constructed anew on the socket of a destroyed one starts at 0 again.
\<close>

theorem sequence_counter:
  "stream_sequence (new_MumbleAudioStream s) = 0 \<and>
   stream_sequence (run es (new_MumbleAudioStream s)) = int (length (filter is_send es)) \<and>
   stream_sequence (snd (sendAudio data c t fin (run es (new_MumbleAudioStream s)))) =
     int (length (filter is_send es)) + 1 \<and>
   (fst (sendAudio data c t fin (run es (new_MumbleAudioStream s))) = Inr () \<longrightarrow>
      drop 6 (last (written (socket
        (snd (sendAudio data c t fin (run es (new_MumbleAudioStream s))))))) =
      createAudioPacket c t (int (length (filter is_send es))) data fin) \<and>
   stream_sequence (step (Frame frame) this) = stream_sequence this \<and>
   stream_sequence (destroy this) = stream_sequence this \<and>
   stream_sequence (new_MumbleAudioStream (socket (destroy this))) = 0"
proof -
  let ?st = "run es (new_MumbleAudioStream s)"
  have q: "stream_sequence ?st = int (length (filter is_send es))"
    by (simp add: run_sequence new_sequence)
  have "drop 6 (last (written (socket (snd (sendAudio data c t fin ?st))))) =
      createAudioPacket c t (int (length (filter is_send es))) data fin"
    if "fst (sendAudio data c t fin ?st) = Inr ()"
  proof -
    have small: "int (length (createAudioPacket c t (stream_sequence ?st) data fin)) < 2 ^ 32"
      and acc: "accepting (socket ?st)"
      using that by (auto simp: sendAudio_cases Let_def split: if_splits)
    show ?thesis
      using small acc envelope_parts(4)[OF small]
      by (simp add: sendAudio_cases Let_def q)
  qed
  moreover have "stream_sequence (step (Frame frame) this) = stream_sequence this"
    using step_sequence[of "Frame frame" this] by simp
  ultimately show ?thesis
    by (simp add: new_sequence q sendAudio_sequence destroy_keeps)
qed

theorem sequence_counter_witness:
  "stream_sequence (run [SendAudio [1] Opus 0 False, Frame [0x40], SendAudio [2] Speex 1 False]
     (new_MumbleAudioStream \<lparr>decodeAudio = Fn (Host 0), accepting = True, written = [],
        delivered = [], allocated = 1\<rparr>)) = 2 \<and>
   fst (sendAudio [7] Opus 0 True
     (run [SendAudio [1] Opus 0 False, Frame [0x40], SendAudio [2] Speex 1 False]
       (new_MumbleAudioStream \<lparr>decodeAudio = Fn (Host 0), accepting = True, written = [],
          delivered = [], allocated = 1\<rparr>))) = Inr () \<and>
   createAudioPacket Opus 0 2 [7] True = [0x80, 0x02, 0x81, 0x40, 0x07]"
  using sequence_counter[of "\<lparr>decodeAudio = Fn (Host 0), accepting = True, written = [],
          delivered = [], allocated = 1\<rparr>"
      "[SendAudio [1] Opus 0 False, Frame [0x40], SendAudio [2] Speex 1 False]"
      "[7]" Opus 0 True]
  by (simp add: new_attached sendAudio_cases Let_def envelope_def createAudioPacket_def
      writeVarint_unfold socket_decodeAudio_def hooked_decodeAudio_def
      Subject_next_def parseAudioPacket_def readVarint_past_end)

lemma destroy_twice: "destroy (destroy this) = destroy this"
  by (cases "originalDecodeAudio this") (simp_all add: destroy_def Subject_complete_def)

lemma bound_is_new_object: "Bound k f \<noteq> f"
  by (induction f) simp_all

lemma destroy_handler:
  "originalDecodeAudio this = Some g \<Longrightarrow> decodeAudio (socket (destroy this)) = Fn g"
  by (simp add: destroy_def)

text \<open>
  C8, as stated, at a concrete socket whose handler is the host function 0: after
  construction and \<open>destroy\<close> the handler is the bound function made at construction,
  a different object.
\<close>

theorem destroy_restores_counterexample:
  "decodeAudio (socket (destroy (new_MumbleAudioStream
      \<lparr>decodeAudio = Fn (Host 0), accepting = True, written = [], delivered = [],
        allocated = 1\<rparr>))) = Fn (Bound 1 (Host 0)) \<and>
   Fn (Bound 1 (Host 0)) \<noteq>
     decodeAudio \<lparr>decodeAudio = Fn (Host 0), accepting = True, written = [], delivered = [],
        allocated = 1\<rparr>"
  by (simp add: new_attached destroy_def Subject_complete_def)

text \<open>
  C8, amended. On a socket whose handler is a function \<open>f\<close>, after any events and
  \<open>destroy\<close> the handler is the bound function created at construction from \<open>f\<close>, an
  object other than \<open>f\<close>; calling it is calling \<open>f\<close> with the same bytes; and a second
  \<open>destroy\<close> changes nothing.
\<close>

theorem destroy_restores_bound_handler:
  assumes "decodeAudio s = Fn f"
  shows "decodeAudio (socket (destroy (run es (new_MumbleAudioStream s)))) =
           Fn (Bound (allocated s) f) \<and>
         Fn (Bound (allocated s) f) \<noteq> decodeAudio s \<and>
         call_fn (Bound (allocated s) f) data x = call_fn f data x \<and>
         destroy (destroy (run es (new_MumbleAudioStream s))) =
           destroy (run es (new_MumbleAudioStream s))"
proof -
  have "originalDecodeAudio (run es (new_MumbleAudioStream s)) = Some (Bound (allocated s) f)"
    by (simp add: run_original new_attached[OF assms])
  then show ?thesis by (simp add: destroy_handler destroy_twice assms bound_is_new_object)
qed

theorem destroy_restores_bound_handler_witness:
  "decodeAudio (socket (destroy (run [Frame [0x40], SendAudio [1] Opus 0 False]
      (new_MumbleAudioStream \<lparr>decodeAudio = Fn (Host 0), accepting = True, written = [],
         delivered = [], allocated = 1\<rparr>)))) = Fn (Bound 1 (Host 0)) \<and>
   call_fn (Bound 1 (Host 0)) [0x40]
      \<lparr>decodeAudio = Fn (Bound 1 (Host 0)), accepting = True, written = [],
         delivered = [], allocated = 3\<rparr> =
     \<lparr>decodeAudio = Fn (Bound 1 (Host 0)), accepting = True, written = [],
         delivered = [(0, [0x40])], allocated = 3\<rparr>"
  using destroy_restores_bound_handler[of
      "\<lparr>decodeAudio = Fn (Host 0), accepting = True, written = [],
         delivered = [], allocated = 1\<rparr>" "Host 0"
      "[Frame [0x40], SendAudio [1] Opus 0 False]" "[0x40]"
      "\<lparr>decodeAudio = Fn (Bound 1 (Host 0)), accepting = True, written = [],
         delivered = [], allocated = 3\<rparr>"]
  by simp

lemma drop_keeps_suffix:
  assumes "length d \<le> length p"
  shows "drop (length (pre @ p) - length d) (pre @ p) = drop (length p - length d) p"
proof -
  have "length (pre @ p) - length d = length pre + (length p - length d)"
    using assms by simp
  then show ?thesis by (simp only: drop_append drop_all) simp
qed

text \<open>
  C3, as stated, at a payload of 8192 bytes: \<open>sendAudio\<close> succeeds, and the packet
  written holds all 8192 bytes behind a length field of 0.
\<close>

theorem sendAudio_oversize_counterexample:
  "fst (sendAudio (replicate 8192 0) Opus 0 False
     (new_MumbleAudioStream \<lparr>decodeAudio = Fn (Host 0), accepting = True, written = [],
        delivered = [], allocated = 1\<rparr>)) = Inr () \<and>
   written (socket (snd (sendAudio (replicate 8192 0) Opus 0 False
     (new_MumbleAudioStream \<lparr>decodeAudio = Fn (Host 0), accepting = True, written = [],
        delivered = [], allocated = 1\<rparr>)))) =
     [[0, 1, 0, 0, 0x20, 0x03, 0x80, 0x00, 0x00] @ replicate 8192 0]"
  by (simp add: new_attached sendAudio_cases Let_def envelope_def createAudioPacket_def
      writeVarint_unfold)

text \<open>
  C3, amended. There is no error for an oversize payload: with codec Opus, a payload
  longer than 0x1fff bytes, a transport that accepts the write and a packet shorter than
  2^32 bytes, \<open>sendAudio\<close> succeeds and writes one buffer, the envelope of the packet
  that \<open>createAudioPacket\<close> builds, whose last bytes are the whole payload.
\<close>

theorem sendAudio_oversize_no_error:
  assumes "0x1fff < length data"
    and "accepting (socket this)"
    and "int (length (createAudioPacket Opus t (stream_sequence this) data fin)) < 2 ^ 32"
  shows "fst (sendAudio data Opus t fin this) = Inr () \<and>
     (\<exists>buf. written (socket (snd (sendAudio data Opus t fin this))) =
              written (socket this) @ [buf] \<and>
            drop 6 buf = createAudioPacket Opus t (stream_sequence this) data fin \<and>
            drop (length buf - length data) buf = data)"
proof -
  let ?packet = "createAudioPacket Opus t (stream_sequence this) data fin"
  have r: "sendAudio data Opus t fin this =
      (Inr (), this\<lparr>stream_sequence := stream_sequence this + 1,
          socket := (socket this)\<lparr>written := written (socket this) @ [envelope ?packet]\<rparr>\<rparr>)"
    using assms(2,3) by (simp add: sendAudio_cases Let_def)
  have "length data \<le> length ?packet"
    by (simp add: createAudioPacket_layout)
  then have "drop (length (envelope ?packet) - length data) (envelope ?packet) =
      drop (length ?packet - length data) ?packet"
    unfolding envelope_def by (rule drop_keeps_suffix)
  then have "drop (length (envelope ?packet) - length data) (envelope ?packet) = data"
    by (simp only: createAudioPacket_ends_with_payload)
  with envelope_parts(4)[OF assms(3)] show ?thesis
    unfolding r by simp
qed

theorem sendAudio_oversize_no_error_witness:
  "fst (sendAudio (replicate 8192 0) Opus 0 False
     \<lparr>socket = \<lparr>decodeAudio = NotAFunction, accepting = True, written = [],
        delivered = [], allocated = 0\<rparr>,
      audioSubject = \<lparr>isStopped = False, emitted = []\<rparr>,
      stream_sequence = 0, originalDecodeAudio = None\<rparr>) = Inr () \<and>
   0x1fff < length (replicate 8192 (0 :: byte))"
  using sendAudio_oversize_no_error[of "replicate 8192 0"
     "\<lparr>socket = \<lparr>decodeAudio = NotAFunction, accepting = True, written = [],
        delivered = [], allocated = 0\<rparr>,
      audioSubject = \<lparr>isStopped = False, emitted = []\<rparr>,
      stream_sequence = 0, originalDecodeAudio = None\<rparr>" 0 False]
  by (simp add: createAudioPacket_def writeVarint_unfold)

end
